theory Spec2Isabelle
  imports Main
begin

section \<open>Name validator\<close>

text \<open>
  The pattern \<^verbatim>\<open>_validname_re\<close> of \<^verbatim>\<open>common.py\<close> is
  \<^verbatim>\<open>^[a-z0-9._@$][a-z0-9._@$ \\~-]{0,98}[a-z0-9._@$~-]$\<close>, compiled with
  \<^verbatim>\<open>re.IGNORECASE\<close>. It is a sequence of character classes, each with a
  repetition range, between the anchors \<^verbatim>\<open>^\<close> and \<^verbatim>\<open>$\<close>. A
  character class is a list of inclusive ranges (a single character is a range of
  one). The strings are Python 2 byte strings: a character is a byte and case
  folding is the ASCII one.
\<close>

definition ord :: "char \<Rightarrow> nat" where
  "ord c = of_char c"

type_synonym char_class = "(char \<times> char) list"

definition in_class :: "char_class \<Rightarrow> char \<Rightarrow> bool" where
  "in_class cls c = list_ex (\<lambda>(lo, hi). ord lo \<le> ord c \<and> ord c \<le> ord hi) cls"

text \<open>The lower-casing of the regular expression engine and of \<^verbatim>\<open>str.lower\<close>.\<close>

definition getlower :: "char \<Rightarrow> char" where
  "getlower c =
     (if ord CHR ''A'' \<le> ord c \<and> ord c \<le> ord CHR ''Z'' then char_of (ord c + 32) else c)"

text \<open>
  With \<^verbatim>\<open>IGNORECASE\<close> the engine lower-cases the subject character before it
  looks it up in the class (whose members are lower case already).
\<close>

definition class_matches :: "bool \<Rightarrow> char_class \<Rightarrow> char \<Rightarrow> bool" where
  "class_matches ignorecase cls c = in_class cls (if ignorecase then getlower c else c)"

text \<open>
  \<^verbatim>\<open>re.match\<close> of an anchored pattern: some choice of repetition counts within
  each item's range consumes a prefix of the string, after which \<^verbatim>\<open>$\<close> holds.
  Python's \<^verbatim>\<open>$\<close> holds at the end of the string and also just before a
  newline that ends the string.
\<close>

fun re_match :: "bool \<Rightarrow> (char_class \<times> nat \<times> nat) list \<Rightarrow> string \<Rightarrow> bool" where
  "re_match ic [] s = (s = [] \<or> s = [CHR 0x0A])"
| "re_match ic ((cls, lo, hi) # items) s =
     list_ex (\<lambda>k. k \<le> length s \<and> list_all (class_matches ic cls) (take k s)
                  \<and> re_match ic items (drop k s)) [lo..<Suc hi]"

definition first_class :: char_class where
  "first_class = [(CHR ''a'', CHR ''z''), (CHR ''0'', CHR ''9''), (CHR ''.'', CHR ''.''),
     (CHR ''_'', CHR ''_''), (CHR ''@'', CHR ''@''), (CHR ''$'', CHR ''$'')]"

definition mid_class :: char_class where
  "mid_class = [(CHR ''a'', CHR ''z''), (CHR ''0'', CHR ''9''), (CHR ''.'', CHR ''.''),
     (CHR ''_'', CHR ''_''), (CHR ''@'', CHR ''@''), (CHR ''$'', CHR ''$''),
     (CHR '' '', CHR '' ''), (CHR 0x5C, CHR 0x5C), (CHR ''~'', CHR ''~''),
     (CHR ''-'', CHR ''-'')]"

definition last_class :: char_class where
  "last_class = [(CHR ''a'', CHR ''z''), (CHR ''0'', CHR ''9''), (CHR ''.'', CHR ''.''),
     (CHR ''_'', CHR ''_''), (CHR ''@'', CHR ''@''), (CHR ''$'', CHR ''$''),
     (CHR ''~'', CHR ''~''), (CHR ''-'', CHR ''-'')]"

definition validname_re :: "(char_class \<times> nat \<times> nat) list" where
  "validname_re = [(first_class, 1, 1), (mid_class, 0, 98), (last_class, 1, 1)]"

definition isvalidname :: "string \<Rightarrow> bool" where
  "isvalidname name = re_match True validname_re name"

text \<open>
  The shape that the pattern describes on a string without a final newline: 2 to 100
  characters, the first from the first class, the last from the last class, the ones
  in between from the middle class (which holds the backslash).
\<close>

definition valid_shape :: "string \<Rightarrow> bool" where
  "valid_shape s \<longleftrightarrow> 2 \<le> length s \<and> length s \<le> 100
     \<and> class_matches True first_class (hd s)
     \<and> class_matches True last_class (last s)
     \<and> (\<forall>c\<in>set (butlast (tl s)). class_matches True mid_class c)"

text \<open>
  The grammar as the specification words it, for comparison: the interior class is
  \<^verbatim>\<open>[a-z0-9._@$ ~-]\<close>, without the backslash.
\<close>

definition spec_mid_class :: char_class where
  "spec_mid_class = [(CHR ''a'', CHR ''z''), (CHR ''0'', CHR ''9''), (CHR ''.'', CHR ''.''),
     (CHR ''_'', CHR ''_''), (CHR ''@'', CHR ''@''), (CHR ''$'', CHR ''$''),
     (CHR '' '', CHR '' ''), (CHR ''~'', CHR ''~''), (CHR ''-'', CHR ''-'')]"

definition spec_is_valid_name :: "string \<Rightarrow> bool" where
  "spec_is_valid_name s \<longleftrightarrow> 2 \<le> length s \<and> length s \<le> 100
     \<and> class_matches True first_class (hd s)
     \<and> class_matches True last_class (last s)
     \<and> (\<forall>c\<in>set (butlast (tl s)). class_matches True spec_mid_class c)"

section \<open>Values, errors and small helpers of the run-time\<close>

text \<open>
  The exceptions that the modelled code can raise. \<open>NO_SUCH_OBJECT\<close> is the one
  directory error that \<^verbatim>\<open>Search.__call__\<close> catches; \<open>LDAPError\<close> stands for every other
  error of the directory library and \<open>Exception\<close> for errors of the wire stream.
\<close>

datatype error = KeyError | IndexError | NO_SUCH_OBJECT | LDAPError string | Exception string

text \<open>A request parameter is a scalar: a string or a number.\<close>

datatype pval = PStr string | PInt int

text \<open>Python truth value of a parameter: the empty string and zero are false.\<close>

fun truthy :: "pval \<Rightarrow> bool" where
  "truthy (PStr s) = (s \<noteq> [])"
| "truthy (PInt i) = (i \<noteq> 0)"

definition digit :: "nat \<Rightarrow> char" where
  "digit d = char_of (48 + d)"

fun str_nat :: "nat \<Rightarrow> string" where
  "str_nat n = (if n < 10 then [digit n] else str_nat (n div 10) @ [digit (n mod 10)])"

declare str_nat.simps [simp del]

text \<open>\<^verbatim>\<open>str(value)\<close>: a string is itself, a number is printed in decimal.\<close>

fun str :: "pval \<Rightarrow> string" where
  "str (PStr s) = s"
| "str (PInt i) = (if i < 0 then CHR ''-'' # str_nat (nat (- i)) else str_nat (nat i))"

definition lower :: "string \<Rightarrow> string" where
  "lower s = map getlower s"

text \<open>\<^verbatim>\<open>sep.join(xs)\<close>.\<close>

fun join :: "string \<Rightarrow> string list \<Rightarrow> string" where
  "join sep [] = []"
| "join sep [x] = x"
| "join sep (x # y # ys) = x @ sep @ join sep (y # ys)"

text \<open>\<^verbatim>\<open>s.replace(c, r)\<close> for a single character \<open>c\<close>.\<close>

definition replace_char :: "char \<Rightarrow> string \<Rightarrow> string \<Rightarrow> string" where
  "replace_char c r s = concat (map (\<lambda>x. if x = c then r else [x]) s)"

text \<open>
  \<^verbatim>\<open>ldap.filter.escape_filter_chars\<close> of the directory library, in its default
  mode: five replacements in a row, the backslash first.
\<close>

definition escape_filter_chars :: "string \<Rightarrow> string" where
  "escape_filter_chars assertion_value =
     (let s = replace_char (CHR 0x5C) [CHR 0x5C, CHR ''5'', CHR ''c''] assertion_value;
          s = replace_char (CHR ''*'') [CHR 0x5C, CHR ''2'', CHR ''a''] s;
          s = replace_char (CHR ''('') [CHR 0x5C, CHR ''2'', CHR ''8''] s;
          s = replace_char (CHR '')'') [CHR 0x5C, CHR ''2'', CHR ''9''] s;
          s = replace_char (CHR 0x00) [CHR 0x5C, CHR ''0'', CHR ''0''] s
      in s)"

text \<open>The escaping of one character, for stating what the five replacements amount to.\<close>

definition escape_char :: "char \<Rightarrow> string" where
  "escape_char c =
     (if c = CHR 0x5C then [CHR 0x5C, CHR ''5'', CHR ''c'']
      else if c = CHR ''*'' then [CHR 0x5C, CHR ''2'', CHR ''a'']
      else if c = CHR ''('' then [CHR 0x5C, CHR ''2'', CHR ''8'']
      else if c = CHR '')'' then [CHR 0x5C, CHR ''2'', CHR ''9'']
      else if c = CHR 0x00 then [CHR 0x5C, CHR ''0'', CHR ''0'']
      else [c])"

text \<open>\<^verbatim>\<open>dict(pairs)\<close>: a later pair with the same key replaces an earlier one.\<close>

definition dict :: "('k \<times> 'v) list \<Rightarrow> 'k \<rightharpoonup> 'v" where
  "dict ps = map_of (rev ps)"

section \<open>The search\<close>

datatype scope = SCOPE_BASE | SCOPE_ONELEVEL | SCOPE_SUBTREE

text \<open>
  The attributes of a directory entry and of a translated entry map a name to a
  list of strings. The entry that \<^verbatim>\<open>handle_entry\<close> returns can also hold a request
  parameter (put there by the \<^verbatim>\<open>limit_attributes\<close> step), so its values are
  \<^typ>\<open>pval\<close>s. The request parameters are a Python dict, kept as the list of its
  items in the order \<^verbatim>\<open>items()\<close> gives them.
\<close>

type_synonym attrs = "string \<rightharpoonup> string list"
type_synonym entry = "string \<rightharpoonup> pval list"
type_synonym params = "(string \<times> pval) list"
type_synonym dn_ast = "(string \<times> string \<times> int) list list"

text \<open>
  A \<^verbatim>\<open>Search\<close> object. Its collaborators are fields: \<open>conn\<close> is
  \<^verbatim>\<open>conn.search_s\<close>, \<open>attmap\<close> is the lookup \<^verbatim>\<open>self.attmap[attr]\<close>,
  \<open>translate\<close> is \<^verbatim>\<open>self.attmap.translate\<close> and \<open>str2dn\<close> is the library's
  \<^verbatim>\<open>ldap.dn.str2dn\<close>, which parses a DN into its relative names, each a list of
  (attribute, value, flags). \<open>filter_str\<close> is the field \<^verbatim>\<open>filter\<close>.
\<close>

record search =
  str2dn :: "string \<Rightarrow> error + dn_ast"
  conn :: "string \<Rightarrow> scope \<Rightarrow> string \<Rightarrow> string list
             \<Rightarrow> error + (string option \<times> attrs) list"
  attmap :: "string \<Rightarrow> string"
  translate :: "attrs \<Rightarrow> attrs"
  filter_str :: string
  parameters :: params
  bases :: "string list"
  scope :: scope
  attributes :: "string list"
  canonical_first :: "string list"
  required :: "string list"
  case_sensitive :: "string list"
  case_insensitive :: "string list"
  limit_attributes :: "string list"

text \<open>
  \<^verbatim>\<open>get_rdn_value(dn, attribute)\<close>: index 0 of the parsed DN, a dict of its pairs,
  and the subscript \<^verbatim>\<open>[attribute]\<close>. The parser is the first argument.
\<close>

definition get_rdn_value :: "(string \<Rightarrow> error + dn_ast) \<Rightarrow> string \<Rightarrow> string \<Rightarrow> error + string" where
  "get_rdn_value parse dn attribute =
     (case parse dn of
        Inl e \<Rightarrow> Inl e
      | Inr rdns \<Rightarrow>
          (case rdns of
             [] \<Rightarrow> Inl IndexError
           | rdn # _ \<Rightarrow>
               (case dict (map (\<lambda>(x, y, z). (x, y)) rdn) attribute of
                  None \<Rightarrow> Inl KeyError
                | Some v \<Rightarrow> Inr v)))"

definition mk_filter :: "search \<Rightarrow> string" where
  "mk_filter self =
     (if parameters self \<noteq> [] then
        ''(&'' @ filter_str self @ ''('' @
          join '')(''
            (map (\<lambda>(attribute, value).
                    attmap self attribute @ ''='' @ escape_filter_chars (str value))
                 (parameters self))
          @ ''))''
      else filter_str self)"

text \<open>The loop over \<^verbatim>\<open>canonical_first\<close>: the value from the DN is made the first value.\<close>

fun canonical_first_loop :: "search \<Rightarrow> string \<Rightarrow> string list \<Rightarrow> attrs \<Rightarrow> error + attrs" where
  "canonical_first_loop self dn [] attrs = Inr attrs"
| "canonical_first_loop self dn (attr # rest) attrs =
     (case get_rdn_value (str2dn self) dn (attmap self attr) of
        Inl e \<Rightarrow> Inl e
      | Inr primary_value \<Rightarrow>
          if primary_value \<noteq> [] then
            (case attrs attr of
               None \<Rightarrow> Inl KeyError
             | Some values \<Rightarrow>
                 canonical_first_loop self dn rest
                   (attrs(attr \<mapsto>
                      [primary_value] @
                        (if primary_value \<in> set values then remove1 primary_value values
                         else values))))
          else canonical_first_loop self dn rest attrs)"

text \<open>
  The loop over \<^verbatim>\<open>required\<close>: false as soon as
  \<^verbatim>\<open>attributes.get(attr, None)\<close> is missing or empty.
\<close>

fun required_loop :: "attrs \<Rightarrow> string list \<Rightarrow> bool" where
  "required_loop attrs [] = True"
| "required_loop attrs (attr # rest) =
     (case attrs attr of
        None \<Rightarrow> False
      | Some values \<Rightarrow> if values = [] then False else required_loop attrs rest)"

text \<open>
  The loops over \<^verbatim>\<open>case_sensitive\<close> and \<^verbatim>\<open>case_insensitive\<close>. \<open>Inr False\<close> is
  the early \<^verbatim>\<open>return\<close> (the entry is skipped), \<open>Inr True\<close> the end of the loop,
  \<open>Inl KeyError\<close> the failed subscript \<^verbatim>\<open>attributes[attr]\<close>, which Python evaluates
  only when \<^verbatim>\<open>value\<close> is true.
\<close>

fun case_sensitive_loop :: "params \<Rightarrow> attrs \<Rightarrow> string list \<Rightarrow> error + bool" where
  "case_sensitive_loop ps attrs [] = Inr True"
| "case_sensitive_loop ps attrs (attr # rest) =
     (case map_of ps attr of
        None \<Rightarrow> case_sensitive_loop ps attrs rest
      | Some value \<Rightarrow>
          if truthy value then
            (case attrs attr of
               None \<Rightarrow> Inl KeyError
             | Some values \<Rightarrow>
                 if str value \<notin> set values then Inr False
                 else case_sensitive_loop ps attrs rest)
          else case_sensitive_loop ps attrs rest)"

fun case_insensitive_loop :: "params \<Rightarrow> attrs \<Rightarrow> string list \<Rightarrow> error + bool" where
  "case_insensitive_loop ps attrs [] = Inr True"
| "case_insensitive_loop ps attrs (attr # rest) =
     (case map_of ps attr of
        None \<Rightarrow> case_insensitive_loop ps attrs rest
      | Some value \<Rightarrow>
          if truthy value then
            (case attrs attr of
               None \<Rightarrow> Inl KeyError
             | Some values \<Rightarrow>
                 if lower (str value) \<notin> set (map lower values) then Inr False
                 else case_insensitive_loop ps attrs rest)
          else case_insensitive_loop ps attrs rest)"

text \<open>The loop over \<^verbatim>\<open>limit_attributes\<close>.\<close>

fun limit_loop :: "params \<Rightarrow> string list \<Rightarrow> entry \<Rightarrow> entry" where
  "limit_loop ps [] attrs = attrs"
| "limit_loop ps (attr # rest) attrs =
     (case map_of ps attr of
        None \<Rightarrow> limit_loop ps rest attrs
      | Some value \<Rightarrow> limit_loop ps rest (attrs(attr \<mapsto> [value])))"

text \<open>
  \<^verbatim>\<open>Search.handle_entry\<close>. \<open>Inr None\<close> is the bare \<^verbatim>\<open>return\<close> of a skipped
  entry, \<open>Inr (Some (dn, attributes))\<close> the returned pair. The diagnostic
  \<^verbatim>\<open>print\<close> statements write to standard output only and are left out.
\<close>

definition handle_entry :: "search \<Rightarrow> string \<Rightarrow> attrs \<Rightarrow> error + (string \<times> entry) option" where
  "handle_entry self dn raw =
     (let attrs = translate self raw in
      case canonical_first_loop self dn (canonical_first self) attrs of
        Inl e \<Rightarrow> Inl e
      | Inr attrs \<Rightarrow>
          if \<not> required_loop attrs (required self) then Inr None
          else
            (case case_sensitive_loop (parameters self) attrs (case_sensitive self) of
               Inl e \<Rightarrow> Inl e
             | Inr ok \<Rightarrow>
                 if \<not> ok then Inr None
                 else
                   (case case_insensitive_loop (parameters self) attrs
                           (case_insensitive self) of
                      Inl e \<Rightarrow> Inl e
                    | Inr ok' \<Rightarrow>
                        if \<not> ok' then Inr None
                        else Inr (Some (dn,
                               limit_loop (parameters self) (limit_attributes self)
                                 (\<lambda>k. map_option (map PStr) (attrs k)))))))"

text \<open>
  The body of the \<^verbatim>\<open>try\<close> block for one base: the entries yielded so far, and
  the exception that stopped the loop, if one did. An entry whose DN is
  \<^verbatim>\<open>None\<close> or empty is passed over.
\<close>

fun handle_entries :: "search \<Rightarrow> (string option \<times> attrs) list
    \<Rightarrow> (string \<times> entry) list \<times> error option" where
  "handle_entries self [] = ([], None)"
| "handle_entries self ((dn, attrs) # rest) =
     (case dn of
        None \<Rightarrow> handle_entries self rest
      | Some d \<Rightarrow>
          if d = [] then handle_entries self rest
          else
            (case handle_entry self d attrs of
               Inl e \<Rightarrow> ([], Some e)
             | Inr None \<Rightarrow> handle_entries self rest
             | Inr (Some entry) \<Rightarrow>
                 (case handle_entries self rest of
                    (ys, err) \<Rightarrow> (entry # ys, err))))"

text \<open>
  The loop over the bases of \<^verbatim>\<open>Search.__call__\<close>. The generator is modelled by
  what it yields, in order, and by the exception that ends it, if any.
  \<^verbatim>\<open>NO_SUCH_OBJECT\<close> raised anywhere inside the \<^verbatim>\<open>try\<close> block ends the work on
  that base and the loop goes on; any other exception leaves the generator.
\<close>

fun search_bases :: "search \<Rightarrow> string \<Rightarrow> string list
    \<Rightarrow> (string \<times> entry) list \<times> error option" where
  "search_bases self flt [] = ([], None)"
| "search_bases self flt (base # rest) =
     (case conn self base (scope self) flt (attributes self) of
        Inl e \<Rightarrow>
          if e = NO_SUCH_OBJECT then search_bases self flt rest else ([], Some e)
      | Inr entries \<Rightarrow>
          (case handle_entries self entries of
             (ys, None) \<Rightarrow>
               (case search_bases self flt rest of (zs, err) \<Rightarrow> (ys @ zs, err))
           | (ys, Some e) \<Rightarrow>
               if e = NO_SUCH_OBJECT then
                 (case search_bases self flt rest of (zs, err) \<Rightarrow> (ys @ zs, err))
               else (ys, Some e)))"

definition Search_call :: "search \<Rightarrow> (string \<times> entry) list \<times> error option" where
  "Search_call self = search_bases self (mk_filter self) (bases self)"

text \<open>
  \<^verbatim>\<open>Search.__init__\<close> as \<^verbatim>\<open>handle_request\<close> calls it, with a connection and
  the parameters only: the other fields come from the class and its module, which
  the first argument holds. \<^verbatim>\<open>parameters or {}\<close> of a dict is the dict.
\<close>

definition Search_init :: "search \<Rightarrow> (string \<Rightarrow> scope \<Rightarrow> string \<Rightarrow> string list
      \<Rightarrow> error + (string option \<times> attrs) list) \<Rightarrow> params \<Rightarrow> search" where
  "Search_init cls c ps = cls\<lparr>conn := c, parameters := ps\<rparr>"

section \<open>The request handler\<close>

text \<open>
  What is written to the stream \<^verbatim>\<open>fp\<close>: a 32-bit integer
  (\<^verbatim>\<open>write_int32\<close>) or the record of one entry, written by the method
  \<^verbatim>\<open>write\<close> of the subclass. \<^verbatim>\<open>NSLCD_VERSION\<close> and \<^verbatim>\<open>NSLCD_RESULT_END\<close>
  belong to the module \<^verbatim>\<open>constants\<close> and are fields here, as are the subclass
  methods \<^verbatim>\<open>read_parameters\<close> (its result on the request's input: a dict,
  \<^verbatim>\<open>None\<close> or an exception) and \<^verbatim>\<open>write\<close> (the field \<open>write'\<close>), and the class \<^verbatim>\<open>Search\<close> of the
  module.
\<close>

datatype 'r out = Int32 int | Record 'r

record 'r request =
  NSLCD_VERSION :: int
  NSLCD_RESULT_END :: int
  action :: int
  req_conn :: "string \<Rightarrow> scope \<Rightarrow> string \<Rightarrow> string list
                 \<Rightarrow> error + (string option \<times> attrs) list"
  read_parameters :: "error + params option"
  write' :: "string \<Rightarrow> entry \<Rightarrow> params \<Rightarrow> 'r"
  search_cls :: search

text \<open>
  \<^verbatim>\<open>Request.handle_request\<close>: the stream written so far goes in, the stream and
  the exception that left the method, if any, come out.
\<close>

definition handle_request :: "'r request \<Rightarrow> 'r out list \<Rightarrow> params
    \<Rightarrow> 'r out list \<times> error option" where
  "handle_request self fp ps =
     (case Search_call (Search_init (search_cls self) (req_conn self) ps) of
        (ys, err) \<Rightarrow>
          (let fp = fp @ map (\<lambda>(dn, attrs). Record (write' self dn attrs ps)) ys
           in case err of
                Some e \<Rightarrow> (fp, Some e)
              | None \<Rightarrow> (fp @ [Int32 (NSLCD_RESULT_END self)], None)))"

definition Request_call :: "'r request \<Rightarrow> 'r out list \<Rightarrow> 'r out list \<times> error option" where
  "Request_call self fp =
     (case read_parameters self of
        Inl e \<Rightarrow> (fp, Some e)
      | Inr r \<Rightarrow>
          (let ps = (case r of None \<Rightarrow> [] | Some d \<Rightarrow> d);
               fp = fp @ [Int32 (NSLCD_VERSION self)];
               fp = fp @ [Int32 (action self)]
           in handle_request self fp ps))"

section \<open>Notions used to state the properties\<close>

text \<open>
  The two confirmation loops differ in the comparison only. \<open>check_loop\<close> is their
  common form, with the comparison as an argument; the properties of both loops are
  proved once, on it.
\<close>

fun check_loop :: "(pval \<Rightarrow> string list \<Rightarrow> bool) \<Rightarrow> params \<Rightarrow> attrs \<Rightarrow> string list
    \<Rightarrow> error + bool" where
  "check_loop confirms ps attrs [] = Inr True"
| "check_loop confirms ps attrs (attr # rest) =
     (case map_of ps attr of
        None \<Rightarrow> check_loop confirms ps attrs rest
      | Some value \<Rightarrow>
          if truthy value then
            (case attrs attr of
               None \<Rightarrow> Inl KeyError
             | Some values \<Rightarrow>
                 if \<not> confirms value values then Inr False
                 else check_loop confirms ps attrs rest)
          else check_loop confirms ps attrs rest)"

definition confirms_cs :: "pval \<Rightarrow> string list \<Rightarrow> bool" where
  "confirms_cs v vs \<longleftrightarrow> str v \<in> set vs"

definition confirms_ci :: "pval \<Rightarrow> string list \<Rightarrow> bool" where
  "confirms_ci v vs \<longleftrightarrow> lower (str v) \<in> set (map lower vs)"

text \<open>
  A field passes a confirmation when the request has no value for it, or a false
  one, or when the entry has the field and its values confirm the request's value.
\<close>

definition passes :: "(pval \<Rightarrow> string list \<Rightarrow> bool) \<Rightarrow> params \<Rightarrow> attrs \<Rightarrow> string \<Rightarrow> bool" where
  "passes confirms ps attrs f \<longleftrightarrow>
     (case map_of ps f of
        None \<Rightarrow> True
      | Some v \<Rightarrow>
          \<not> truthy v \<or> (case attrs f of None \<Rightarrow> False | Some vs \<Rightarrow> confirms v vs))"

text \<open>
  A field is a mismatch when the request has a true value for it and the entry has
  the field without a confirming value.
\<close>

definition mismatch :: "(pval \<Rightarrow> string list \<Rightarrow> bool) \<Rightarrow> params \<Rightarrow> attrs \<Rightarrow> string \<Rightarrow> bool" where
  "mismatch confirms ps attrs f \<longleftrightarrow>
     (case map_of ps f of
        None \<Rightarrow> False
      | Some v \<Rightarrow>
          truthy v \<and> (case attrs f of None \<Rightarrow> False | Some vs \<Rightarrow> \<not> confirms v vs))"

text \<open>The subscript of a confirmation fails: a true request value, and no such field.\<close>

definition lookup_fails :: "params \<Rightarrow> attrs \<Rightarrow> string \<Rightarrow> bool" where
  "lookup_fails ps attrs f \<longleftrightarrow>
     (case map_of ps f of None \<Rightarrow> False | Some v \<Rightarrow> truthy v \<and> attrs f = None)"



text \<open>The attributes after translation and the \<^verbatim>\<open>canonical_first\<close> loop.\<close>

definition canonical :: "search \<Rightarrow> string \<Rightarrow> attrs \<Rightarrow> error + attrs" where
  "canonical s dn raw = canonical_first_loop s dn (canonical_first s) (translate s raw)"

text \<open>Whether a result of \<^verbatim>\<open>handle_entry\<close> is an entry, and the entry's attributes.\<close>

definition accepted :: "error + (string \<times> entry) option \<Rightarrow> bool" where
  "accepted r = (case r of Inr (Some x) \<Rightarrow> True | _ \<Rightarrow> False)"

definition entry_of :: "error + (string \<times> entry) option \<Rightarrow> entry" where
  "entry_of r = (case r of Inr (Some (dn, e)) \<Rightarrow> e | _ \<Rightarrow> Map.empty)"

text \<open>
  What one base contributes to \<^verbatim>\<open>Search.__call__\<close>, read off the \<^verbatim>\<open>try\<close> block:
  \<open>base_yield\<close> is what is yielded while the block runs for the base (nothing when
  the directory search itself raises), and \<open>base_error\<close> is the exception that
  leaves the generator from that block, if any (\<^verbatim>\<open>NO_SUCH_OBJECT\<close> never does).
\<close>

definition base_yield :: "search \<Rightarrow> string \<Rightarrow> string \<Rightarrow> (string \<times> entry) list" where
  "base_yield s flt base =
     (case conn s base (scope s) flt (attributes s) of
        Inl e \<Rightarrow> []
      | Inr entries \<Rightarrow> fst (handle_entries s entries))"

definition base_error :: "search \<Rightarrow> string \<Rightarrow> string \<Rightarrow> error option" where
  "base_error s flt base =
     (case conn s base (scope s) flt (attributes s) of
        Inl e \<Rightarrow> if e = NO_SUCH_OBJECT then None else Some e
      | Inr entries \<Rightarrow>
          (case snd (handle_entries s entries) of
             None \<Rightarrow> None
           | Some e \<Rightarrow> if e = NO_SUCH_OBJECT then None else Some e))"

section \<open>Examples\<close>

text \<open>A parser that knows three DNs, standing for \<^verbatim>\<open>ldap.dn.str2dn\<close> in the examples.\<close>

definition ex_str2dn :: "string \<Rightarrow> error + dn_ast" where
  "ex_str2dn dn =
     (if dn = ''uid=alice,dc=example'' then
        Inr [[(''uid'', ''alice'', 1)], [(''dc'', ''example'', 1)]]
      else if dn = ''cn=Alice Smith,dc=example'' then
        Inr [[(''cn'', ''Alice Smith'', 1)], [(''dc'', ''example'', 1)]]
      else if dn = [] then Inr []
      else Inl (LDAPError ''DECODING_ERROR''))"

text \<open>A directory with one entry below the second of two bases; the first does not exist.\<close>

definition ex_conn :: "string \<Rightarrow> scope \<Rightarrow> string \<Rightarrow> string list
    \<Rightarrow> error + (string option \<times> attrs) list" where
  "ex_conn base sc flt as =
     (if base = ''ou=people,dc=example'' then
        Inr [(Some ''uid=alice,dc=example'',
              [''uid'' \<mapsto> [''alice''], ''uidNumber'' \<mapsto> [''1000'']])]
      else if base = ''ou=empty,dc=example'' then Inr []
      else Inl NO_SUCH_OBJECT)"

definition ex_search :: search where
  "ex_search = \<lparr>str2dn = ex_str2dn, conn = ex_conn, attmap = (\<lambda>a. a),
     translate = (\<lambda>a. a), filter_str = ''(objectClass=posixAccount)'',
     parameters = [], bases = [''ou=gone,dc=example'', ''ou=people,dc=example''],
     scope = SCOPE_SUBTREE, attributes = [''uid'', ''uidNumber''],
     canonical_first = [''uid''], required = [''uid''], case_sensitive = [''uid''],
     case_insensitive = [], limit_attributes = []\<rparr>"

text \<open>
  A request by name, for the examples of the dispatcher: the record written for an
  entry is its DN.
\<close>

definition ex_request :: "string request" where
  "ex_request = \<lparr>NSLCD_VERSION = 1, NSLCD_RESULT_END = 3, action = 0x00080001,
     req_conn = ex_conn, read_parameters = Inr (Some [(''uid'', PStr ''alice'')]),
     write' = (\<lambda>dn attrs ps. dn), search_cls = ex_search\<rparr>"


text \<open>
  A search by number as the account lookup makes it, with the request's number 0:
  \<^verbatim>\<open>uid\<close> and \<^verbatim>\<open>uidNumber\<close> are confirmed with regard to case and limited to
  the request's value.
\<close>

definition ex_search_zero :: search where
  "ex_search_zero = ex_search\<lparr>parameters := [(''uidNumber'', PInt 0)],
     case_sensitive := [''uid'', ''uidNumber''],
     limit_attributes := [''uid'', ''uidNumber'']\<rparr>"

section \<open>Properties of the name validator\<close>

lemma re_match_one:
  "re_match ic ((cls, Suc 0, Suc 0) # items) s \<longleftrightarrow>
     (\<exists>c r. s = c # r \<and> class_matches ic cls c \<and> re_match ic items r)"
  by (cases s) (simp_all add: list_ex_iff)

lemma re_match_upto:
  "re_match ic ((cls, 0, n) # items) s \<longleftrightarrow>
     (\<exists>k\<le>n. k \<le> length s \<and> (\<forall>c\<in>set (take k s). class_matches ic cls c)
        \<and> re_match ic items (drop k s))"
proof -
  have "set [0..<Suc n] = {k. k \<le> n}" by auto
  then show ?thesis by (simp only: re_match.simps list_ex_iff list_all_iff) blast
qed

lemma re_match_shape:
  "re_match ic [(A, Suc 0, Suc 0), (B, 0, n), (C, Suc 0, Suc 0)] s \<longleftrightarrow>
     (\<exists>a m z e. s = a # m @ z # e \<and> length m \<le> n \<and> class_matches ic A a
        \<and> (\<forall>c\<in>set m. class_matches ic B c) \<and> class_matches ic C z
        \<and> (e = [] \<or> e = [CHR 0x0A]))"
  (is "?L \<longleftrightarrow> ?R")
proof
  assume ?L
  then obtain a r where s: "s = a # r" and a: "class_matches ic A a"
    and r: "re_match ic [(B, 0, n), (C, Suc 0, Suc 0)] r"
    unfolding re_match_one by blast
  from r obtain k where k: "k \<le> n" "k \<le> length r"
    and m: "\<forall>c\<in>set (take k r). class_matches ic B c"
    and d: "re_match ic [(C, Suc 0, Suc 0)] (drop k r)"
    unfolding re_match_upto by blast
  from d obtain z e where z: "drop k r = z # e" "class_matches ic C z"
    and e: "e = [] \<or> e = [CHR 0x0A]"
    unfolding re_match_one by auto
  have "r = take k r @ z # e" using z(1) by (metis append_take_drop_id)
  with s have "s = a # take k r @ z # e" by simp
  moreover have "length (take k r) \<le> n" using k by simp
  ultimately show ?R using a m z(2) e by blast
next
  assume ?R
  then obtain a m z e where s: "s = a # m @ z # e" and n: "length m \<le> n"
    and a: "class_matches ic A a" and m: "\<forall>c\<in>set m. class_matches ic B c"
    and z: "class_matches ic C z" and e: "e = [] \<or> e = [CHR 0x0A]"
    by blast
  have "re_match ic [(C, Suc 0, Suc 0)] (z # e)"
    unfolding re_match_one using z e by auto
  then have "re_match ic [(B, 0, n), (C, Suc 0, Suc 0)] (m @ z # e)"
    unfolding re_match_upto using n m by (intro exI [of _ "length m"]) simp
  then show ?L unfolding re_match_one using s a by blast
qed

lemma newline_not_last_class: "\<not> class_matches True last_class (CHR 0x0A)"
  by (simp add: class_matches_def last_class_def in_class_def getlower_def ord_def)

lemma isvalidname_shape:
  "isvalidname s \<longleftrightarrow>
     (\<exists>a m z e. s = a # m @ z # e \<and> length m \<le> 98 \<and> class_matches True first_class a
        \<and> (\<forall>c\<in>set m. class_matches True mid_class c) \<and> class_matches True last_class z
        \<and> (e = [] \<or> e = [CHR 0x0A]))"
proof -
  have re: "validname_re =
      [(first_class, Suc 0, Suc 0), (mid_class, 0, 98), (last_class, Suc 0, Suc 0)]"
    by (simp add: validname_re_def)
  show ?thesis unfolding isvalidname_def re by (rule re_match_shape)
qed

lemma valid_shape_split:
  "valid_shape s \<longleftrightarrow>
     (\<exists>a m z. s = a # m @ [z] \<and> length m \<le> 98 \<and> class_matches True first_class a
        \<and> (\<forall>c\<in>set m. class_matches True mid_class c) \<and> class_matches True last_class z)"
  (is "?L \<longleftrightarrow> ?R")
proof
  assume v: ?L
  then have len: "2 \<le> length s" "length s \<le> 100" by (simp_all add: valid_shape_def)
  then obtain a r where s: "s = a # r" by (cases s) auto
  with len have ne: "r \<noteq> []" by auto
  then have "s = a # butlast r @ [last r]" using s by simp
  moreover have "length (butlast r) \<le> 98" using len s by simp
  moreover have "class_matches True first_class a" using v s by (simp add: valid_shape_def)
  moreover have "\<forall>c\<in>set (butlast r). class_matches True mid_class c"
    using v s by (simp add: valid_shape_def)
  moreover have "class_matches True last_class (last r)"
    using v s ne by (simp add: valid_shape_def)
  ultimately show ?R by blast
next
  assume ?R
  then obtain a m z where s: "s = a # m @ [z]" and n: "length m \<le> 98"
    and a: "class_matches True first_class a"
    and m: "\<forall>c\<in>set m. class_matches True mid_class c"
    and z: "class_matches True last_class z"
    by blast
  show ?L unfolding valid_shape_def s using n a m z by (simp add: butlast_append)
qed

text \<open>
  What the anchor \<^verbatim>\<open>$\<close> adds: a name of the right shape followed by one newline
  is accepted too, whatever its length up to 101.
\<close>

lemma isvalidname_newline:
  "isvalidname (s @ [CHR 0x0A]) \<longleftrightarrow> valid_shape s"
proof
  assume "isvalidname (s @ [CHR 0x0A])"
  then obtain a m z e where s: "s @ [CHR 0x0A] = a # m @ z # e" and n: "length m \<le> 98"
    and a: "class_matches True first_class a"
    and m: "\<forall>c\<in>set m. class_matches True mid_class c"
    and z: "class_matches True last_class z" and e: "e = [] \<or> e = [CHR 0x0A]"
    unfolding isvalidname_shape by blast
  have "e \<noteq> []"
  proof
    assume "e = []"
    with s have "s @ [CHR 0x0A] = (a # m) @ [z]" by simp
    then have "z = CHR 0x0A" by (simp only: append1_eq_conv)
    with z show False by (simp add: newline_not_last_class)
  qed
  with e have "e = [CHR 0x0A]" by simp
  with s have "s @ [CHR 0x0A] = (a # m @ [z]) @ [CHR 0x0A]" by simp
  then have "s = a # m @ [z]" by (simp only: append1_eq_conv)
  then show "valid_shape s" unfolding valid_shape_split using n a m z by blast
next
  assume "valid_shape s"
  then obtain a m z where s: "s = a # m @ [z]" and n: "length m \<le> 98"
    and a: "class_matches True first_class a"
    and m: "\<forall>c\<in>set m. class_matches True mid_class c"
    and z: "class_matches True last_class z"
    unfolding valid_shape_split by blast
  have "s @ [CHR 0x0A] = a # m @ z # [CHR 0x0A]" using s by simp
  then show "isvalidname (s @ [CHR 0x0A])" unfolding isvalidname_shape using n a m z by blast
qed

text \<open>
  Claim C7, as amended. For every string that does not end in a newline,
  \<^verbatim>\<open>isvalidname\<close> is true exactly when the string has 2 to 100 characters, its
  first character is in \<^verbatim>\<open>[a-z0-9._@$]\<close>, its last character in
  \<^verbatim>\<open>[a-z0-9._@$~-]\<close> and every character in between in
  \<^verbatim>\<open>[a-z0-9._@$ \\~-]\<close> (the class of the source, which holds the backslash),
  all three without regard to case. In particular the empty string and every such
  string of more than 100 characters give false.
\<close>

theorem isvalidname_iff:
  assumes "s = [] \<or> last s \<noteq> CHR 0x0A"
  shows "isvalidname s \<longleftrightarrow> valid_shape s"
proof
  assume "isvalidname s"
  then obtain a m z e where s: "s = a # m @ z # e" and n: "length m \<le> 98"
    and a: "class_matches True first_class a"
    and m: "\<forall>c\<in>set m. class_matches True mid_class c"
    and z: "class_matches True last_class z" and e: "e = [] \<or> e = [CHR 0x0A]"
    unfolding isvalidname_shape by blast
  from assms s e have "e = []" by auto
  with s have "s = a # m @ [z]" by simp
  then show "valid_shape s" unfolding valid_shape_split using n a m z by blast
next
  assume "valid_shape s"
  then obtain a m z where s: "s = a # m @ [z]" and n: "length m \<le> 98"
    and a: "class_matches True first_class a"
    and m: "\<forall>c\<in>set m. class_matches True mid_class c"
    and z: "class_matches True last_class z"
    unfolding valid_shape_split by blast
  have "s = a # m @ z # []" using s by simp
  then show "isvalidname s" unfolding isvalidname_shape using n a m z by blast
qed

theorem isvalidname_iff_witness:
  "(''alice'' = [] \<or> last ''alice'' \<noteq> CHR 0x0A)
   \<and> isvalidname ''alice'' \<and> valid_shape ''alice''"
proof -
  have h: "''alice'' = [] \<or> last ''alice'' \<noteq> CHR 0x0A" by simp
  have v: "valid_shape ''alice''" by code_simp
  show ?thesis using isvalidname_iff [OF h] h v by simp
qed

text \<open>
  Claim C7 as stated fails: the name \<^verbatim>\<open>a\b\<close> has a backslash in between, which
  the interior class of the claim does not hold, and \<^verbatim>\<open>isvalidname\<close> accepts it.
\<close>

theorem isvalidname_backslash_counterexample:
  "isvalidname [CHR ''a'', CHR 0x5C, CHR ''b'']
   \<and> \<not> spec_is_valid_name [CHR ''a'', CHR 0x5C, CHR ''b'']"
  by code_simp

lemma isvalidname_examples:
  "isvalidname ''alice''" "\<not> isvalidname ''-alice''" "\<not> isvalidname ''''"
  by code_simp+

lemma isvalidname_too_long: "\<not> isvalidname (replicate 101 CHR ''a'')"
proof
  let ?s = "replicate 101 CHR ''a''"
  assume "isvalidname ?s"
  then obtain a m z e where s: "?s = a # m @ z # e" and n: "length m \<le> 98"
    and e: "e = [] \<or> e = [CHR 0x0A]"
    unfolding isvalidname_shape by blast
  have l: "last ?s = CHR ''a''" by simp
  from e show False
  proof
    assume "e = []"
    with s have "length ?s = length m + 2" by simp
    with n show False by simp
  next
    assume "e = [CHR 0x0A]"
    with s have "last ?s = CHR 0x0A" by simp
    with l show False by simp
  qed
qed

section \<open>Properties of the loops of reconciliation\<close>

lemma case_sensitive_loop_eq: "case_sensitive_loop ps a fs = check_loop confirms_cs ps a fs"
  by (induction fs) (auto simp: confirms_cs_def split: option.splits)

lemma case_insensitive_loop_eq: "case_insensitive_loop ps a fs = check_loop confirms_ci ps a fs"
  by (induction fs) (auto simp: confirms_ci_def split: option.splits)

lemma check_loop_True:
  "check_loop c ps a fs = Inr True \<longleftrightarrow> (\<forall>f\<in>set fs. passes c ps a f)"
  by (induction fs) (auto simp: passes_def split: option.splits)


lemma check_loop_Inl:
  "check_loop c ps a fs = Inl e \<Longrightarrow> e = KeyError \<and> (\<exists>f\<in>set fs. lookup_fails ps a f)"
  by (induction fs) (auto simp: lookup_fails_def split: option.splits if_splits)

lemma check_loop_prefix:
  "\<forall>g\<in>set pre. passes c ps a g \<Longrightarrow> check_loop c ps a (pre @ rest) = check_loop c ps a rest"
  by (induction pre) (auto simp: passes_def split: option.splits)

lemma check_loop_lookup_fails:
  "lookup_fails ps a f \<Longrightarrow> check_loop c ps a (f # rest) = Inl KeyError"
  by (auto simp: lookup_fails_def split: option.splits)

lemma check_loop_filter:
  "(case map_of ps f of None \<Rightarrow> True | Some v \<Rightarrow> \<not> truthy v) \<Longrightarrow>
   check_loop c ps a (filter (\<lambda>g. g \<noteq> f) fs) = check_loop c ps a fs"
  by (induction fs) (auto split: option.splits)


lemma limit_loop_apply:
  "limit_loop ps ls e f =
     (if f \<in> set ls \<and> map_of ps f \<noteq> None then Some [the (map_of ps f)] else e f)"
  by (induction ls arbitrary: e) (auto split: option.splits)


lemma canonical_first_loop_None:
  "canonical_first_loop s dn fs a = Inr a' \<Longrightarrow> a' f = None \<longleftrightarrow> a f = None"
  by (induction fs arbitrary: a) (auto split: sum.splits option.splits if_splits)



lemma handle_entry_Some:
  "handle_entry s dn raw = Inr (Some (d, e)) \<longleftrightarrow>
     (\<exists>a. canonical s dn raw = Inr a \<and> required_loop a (required s)
        \<and> check_loop confirms_cs (parameters s) a (case_sensitive s) = Inr True
        \<and> check_loop confirms_ci (parameters s) a (case_insensitive s) = Inr True
        \<and> d = dn
        \<and> e = limit_loop (parameters s) (limit_attributes s)
                (\<lambda>k. map_option (map PStr) (a k)))"
  unfolding handle_entry_def canonical_def case_sensitive_loop_eq case_insensitive_loop_eq
  by (auto simp: Let_def split: sum.splits)


lemma handle_entry_Inl:
  "handle_entry s dn raw = Inl err \<longleftrightarrow>
     (canonical s dn raw = Inl err
      \<or> (\<exists>a. canonical s dn raw = Inr a \<and> required_loop a (required s)
            \<and> (check_loop confirms_cs (parameters s) a (case_sensitive s) = Inl err
               \<or> (check_loop confirms_cs (parameters s) a (case_sensitive s) = Inr True
                  \<and> check_loop confirms_ci (parameters s) a (case_insensitive s) = Inl err))))"
  unfolding handle_entry_def canonical_def case_sensitive_loop_eq case_insensitive_loop_eq
  by (auto simp: Let_def split: sum.splits)


lemma mismatch_not_passes: "mismatch c ps a f \<Longrightarrow> \<not> passes c ps a f"
  by (auto simp: mismatch_def passes_def split: option.splits)


section \<open>Reconciliation: the value from the DN comes first\<close>




text \<open>
  A value sequence that holds the value from the DN twice keeps one of the two after
  index 0, since \<^verbatim>\<open>values.remove\<close> takes out one occurrence only.
\<close>

lemma canonical_first_duplicate_example:
  "accepted (handle_entry ex_search ''uid=alice,dc=example'' [''uid'' \<mapsto> [''alice'', ''alice'']])
   \<and> get_rdn_value (str2dn ex_search) ''uid=alice,dc=example'' (attmap ex_search ''uid'')
       = Inr ''alice''
   \<and> entry_of (handle_entry ex_search ''uid=alice,dc=example''
         [''uid'' \<mapsto> [''alice'', ''alice'']]) ''uid''
       = Some [PStr ''alice'', PStr ''alice'']"
  by (simp add: handle_entry_def ex_search_def ex_str2dn_def get_rdn_value_def dict_def
      entry_of_def accepted_def)

section \<open>Reconciliation: required fields and rejection\<close>



section \<open>Reconciliation: confirming the request's values\<close>

lemma limit_loop_confirmed:
  assumes "map_of ps f = Some v"
  shows "limit_loop ps ls (\<lambda>k. map_option (map PStr) (a k)) f =
     (if f \<in> set ls then Some [v] else map_option (map PStr) (a f))"
  using assms by (simp add: limit_loop_apply)

text \<open>
  What the confirmation does establish, for a parameter value that is true (not the
  empty string, not zero). For a field of \<^verbatim>\<open>case_sensitive\<close>, every accepted
  entry's value sequence for that field contains the parameter value verbatim: its
  string form, or the parameter itself where \<^verbatim>\<open>limit_attributes\<close> has replaced
  the sequence. For a field of \<^verbatim>\<open>case_insensitive\<close> the sequence contains an
  element equal to the parameter value under case folding. An entry that has the
  field without such a match is not accepted.
\<close>

lemma parameter_confirmed:
  assumes "map_of (parameters s) f = Some v" and "truthy v"
  shows "(handle_entry s dn raw = Inr (Some (d, e)) \<longrightarrow> f \<in> set (case_sensitive s) \<longrightarrow>
            (\<exists>vs. e f = Some vs \<and> (v \<in> set vs \<or> PStr (str v) \<in> set vs)))
       \<and> (handle_entry s dn raw = Inr (Some (d, e)) \<longrightarrow> f \<in> set (case_insensitive s) \<longrightarrow>
            (\<exists>vs. e f = Some vs \<and>
               (v \<in> set vs \<or> (\<exists>y. PStr y \<in> set vs \<and> lower y = lower (str v)))))
       \<and> (canonical s dn raw = Inr a \<longrightarrow>
            (f \<in> set (case_sensitive s) \<and> mismatch confirms_cs (parameters s) a f)
            \<or> (f \<in> set (case_insensitive s) \<and> mismatch confirms_ci (parameters s) a f) \<longrightarrow>
            \<not> accepted (handle_entry s dn raw))"
proof (intro conjI impI)
  assume acc: "handle_entry s dn raw = Inr (Some (d, e))" and f: "f \<in> set (case_sensitive s)"
  from acc obtain b
    where cs: "check_loop confirms_cs (parameters s) b (case_sensitive s) = Inr True"
    and e: "e = limit_loop (parameters s) (limit_attributes s)
                  (\<lambda>k. map_option (map PStr) (b k))"
    unfolding handle_entry_Some by blast
  from cs f have "passes confirms_cs (parameters s) b f" unfolding check_loop_True by blast
  with assms obtain ws where ws: "b f = Some ws" "str v \<in> set ws"
    by (auto simp: passes_def confirms_cs_def split: option.splits)
  show "\<exists>vs. e f = Some vs \<and> (v \<in> set vs \<or> PStr (str v) \<in> set vs)"
    unfolding e limit_loop_confirmed [OF assms(1)] using ws by auto
next
  assume acc: "handle_entry s dn raw = Inr (Some (d, e))" and f: "f \<in> set (case_insensitive s)"
  from acc obtain b
    where ci: "check_loop confirms_ci (parameters s) b (case_insensitive s) = Inr True"
    and e: "e = limit_loop (parameters s) (limit_attributes s)
                  (\<lambda>k. map_option (map PStr) (b k))"
    unfolding handle_entry_Some by blast
  from ci f have "passes confirms_ci (parameters s) b f" unfolding check_loop_True by blast
  with assms obtain ws where ws: "b f = Some ws" "lower (str v) \<in> set (map lower ws)"
    by (auto simp: passes_def confirms_ci_def split: option.splits)
  from ws(2) obtain y where y: "y \<in> set ws" "lower y = lower (str v)" by auto
  show "\<exists>vs. e f = Some vs \<and>
               (v \<in> set vs \<or> (\<exists>y. PStr y \<in> set vs \<and> lower y = lower (str v)))"
    unfolding e limit_loop_confirmed [OF assms(1)] using ws(1) y by auto
next
  assume a: "canonical s dn raw = Inr a"
    and m: "(f \<in> set (case_sensitive s) \<and> mismatch confirms_cs (parameters s) a f)
            \<or> (f \<in> set (case_insensitive s) \<and> mismatch confirms_ci (parameters s) a f)"
  show "\<not> accepted (handle_entry s dn raw)"
  proof
    assume "accepted (handle_entry s dn raw)"
    then obtain d' e' where "handle_entry s dn raw = Inr (Some (d', e'))"
      by (auto simp: accepted_def split: sum.splits option.splits)
    with a have "\<forall>g\<in>set (case_sensitive s). passes confirms_cs (parameters s) a g"
      and "\<forall>g\<in>set (case_insensitive s). passes confirms_ci (parameters s) a g"
      unfolding handle_entry_Some check_loop_True by auto
    with m show False using mismatch_not_passes by blast
  qed
qed
lemma accepted_form:
  assumes "accepted (handle_entry s dn raw)"
  shows "handle_entry s dn raw = Inr (Some (dn, entry_of (handle_entry s dn raw)))"
proof -
  from assms obtain d e where r: "handle_entry s dn raw = Inr (Some (d, e))"
    by (auto simp: accepted_def split: sum.splits option.splits)
  then have "d = dn" unfolding handle_entry_Some by blast
  with r show ?thesis by (simp add: entry_of_def)
qed

lemma parameter_confirmed_example:
  "map_of (parameters (ex_search\<lparr>parameters := [(''uid'', PStr ''alice''), (''cn'', PStr ''alice smith'')],
        canonical_first := [], case_insensitive := [''cn'']\<rparr>)) ''uid'' = Some (PStr ''alice'')
   \<and> map_of (parameters (ex_search\<lparr>parameters := [(''uid'', PStr ''alice''), (''cn'', PStr ''alice smith'')],
        canonical_first := [], case_insensitive := [''cn'']\<rparr>)) ''cn'' = Some (PStr ''alice smith'')
   \<and> truthy (PStr ''alice'') \<and> truthy (PStr ''alice smith'')
   \<and> accepted (handle_entry (ex_search\<lparr>parameters := [(''uid'', PStr ''alice''), (''cn'', PStr ''alice smith'')],
        canonical_first := [], case_insensitive := [''cn'']\<rparr>) ''uid=alice,dc=example''
        [''uid'' \<mapsto> [''alice''], ''cn'' \<mapsto> [''Alice Smith'']])
   \<and> entry_of (handle_entry (ex_search\<lparr>parameters := [(''uid'', PStr ''alice''), (''cn'', PStr ''alice smith'')],
        canonical_first := [], case_insensitive := [''cn'']\<rparr>) ''uid=alice,dc=example''
        [''uid'' \<mapsto> [''alice''], ''cn'' \<mapsto> [''Alice Smith'']]) ''uid'' = Some [PStr ''alice'']
   \<and> entry_of (handle_entry (ex_search\<lparr>parameters := [(''uid'', PStr ''alice''), (''cn'', PStr ''alice smith'')],
        canonical_first := [], case_insensitive := [''cn'']\<rparr>) ''uid=alice,dc=example''
        [''uid'' \<mapsto> [''alice''], ''cn'' \<mapsto> [''Alice Smith'']]) ''cn'' = Some [PStr ''Alice Smith'']
   \<and> lower ''Alice Smith'' = lower (str (PStr ''alice smith''))
   \<and> mismatch confirms_cs (parameters (ex_search\<lparr>parameters := [(''uid'', PStr ''alice''), (''cn'', PStr ''alice smith'')],
        canonical_first := [], case_insensitive := [''cn'']\<rparr>))
        [''uid'' \<mapsto> [''bob''], ''cn'' \<mapsto> [''Alice Smith'']] ''uid''
   \<and> \<not> accepted (handle_entry (ex_search\<lparr>parameters := [(''uid'', PStr ''alice''), (''cn'', PStr ''alice smith'')],
        canonical_first := [], case_insensitive := [''cn'']\<rparr>) ''uid=alice,dc=example''
        [''uid'' \<mapsto> [''bob''], ''cn'' \<mapsto> [''Alice Smith'']])"
proof -
  let ?s = "ex_search\<lparr>parameters := [(''uid'', PStr ''alice''), (''cn'', PStr ''alice smith'')],
        canonical_first := [], case_insensitive := [''cn'']\<rparr>"
  let ?dn = "''uid=alice,dc=example''"
  let ?ok = "[''uid'' \<mapsto> [''alice''], ''cn'' \<mapsto> [''Alice Smith'']]"
  let ?bad = "[''uid'' \<mapsto> [''bob''], ''cn'' \<mapsto> [''Alice Smith'']]"
  let ?r = "handle_entry ?s ?dn ?ok"
  have p1: "map_of (parameters ?s) ''uid'' = Some (PStr ''alice'')" by (simp add: ex_search_def)
  have p2: "map_of (parameters ?s) ''cn'' = Some (PStr ''alice smith'')"
    by (simp add: ex_search_def)
  have t1: "truthy (PStr ''alice'')" and t2: "truthy (PStr ''alice smith'')" by simp_all
  have acc: "accepted ?r" by code_simp
  have h: "?r = Inr (Some (?dn, entry_of ?r))" using acc by (rule accepted_form)
  have m1: "''uid'' \<in> set (case_sensitive ?s)" and m2: "''cn'' \<in> set (case_insensitive ?s)"
    by (simp_all add: ex_search_def)
  have e1: "entry_of ?r ''uid'' = Some [PStr ''alice'']" by code_simp
  have e2: "entry_of ?r ''cn'' = Some [PStr ''Alice Smith'']" by code_simp
  have lo: "lower ''Alice Smith'' = lower (str (PStr ''alice smith''))" by code_simp
  have c: "canonical ?s ?dn ?bad = Inr ?bad" by (simp add: canonical_def ex_search_def)
  have mm: "mismatch confirms_cs (parameters ?s) ?bad ''uid''"
    by (simp add: mismatch_def confirms_cs_def ex_search_def)
  note u1 = parameter_confirmed [OF p1 t1, of ?dn ?ok ?dn "entry_of ?r" ?bad]
  note u2 = parameter_confirmed [OF p2 t2, of ?dn ?ok ?dn "entry_of ?r" ?bad]
  note u3 = parameter_confirmed [OF p1 t1, of ?dn ?bad ?dn "entry_of ?r" ?bad]
  from u1 h m1 have "\<exists>vs. entry_of ?r ''uid'' = Some vs
      \<and> (PStr ''alice'' \<in> set vs \<or> PStr (str (PStr ''alice'')) \<in> set vs)" by blast
  from u2 h m2 have "\<exists>vs. entry_of ?r ''cn'' = Some vs
      \<and> (PStr ''alice smith'' \<in> set vs
          \<or> (\<exists>y. PStr y \<in> set vs \<and> lower y = lower (str (PStr ''alice smith''))))" by blast
  from u3 c m1 mm have rej: "\<not> accepted (handle_entry ?s ?dn ?bad)" by blast
  from p1 p2 t1 t2 acc e1 e2 lo mm rej show ?thesis by (intro conjI)
qed

text \<open>
  Claim C3 says that when the request supplies a value for a field of
  \<^verbatim>\<open>case_sensitive\<close>, every accepted entry holds that value for the field. The
  code does not keep to it for a supplied value that is false. A request for the
  number 0 puts the term \<^verbatim>\<open>(uidNumber=0)\<close> into the filter, and the
  \<^verbatim>\<open>limit_attributes\<close> step, which asks \<^verbatim>\<open>attr in self.parameters\<close>, takes
  the value as supplied; but the confirmation asks \<^verbatim>\<open>if value and ...\<close>, so an
  entry whose only \<^verbatim>\<open>uidNumber\<close> is 1000 is accepted unconfirmed, and is returned
  with the number 0 in place of its own.
\<close>

theorem supplied_false_value_unconfirmed:
  "map_of (parameters ex_search_zero) ''uidNumber'' = Some (PInt 0)
   \<and> ''uidNumber'' \<in> set (case_sensitive ex_search_zero)
   \<and> mk_filter ex_search_zero = ''(&(objectClass=posixAccount)(uidNumber=0))''
   \<and> translate ex_search_zero [''uid'' \<mapsto> [''alice''], ''uidNumber'' \<mapsto> [''1000'']] ''uidNumber''
       = Some [''1000'']
   \<and> str (PInt 0) \<notin> set [''1000'']
   \<and> accepted (handle_entry ex_search_zero ''uid=alice,dc=example''
        [''uid'' \<mapsto> [''alice''], ''uidNumber'' \<mapsto> [''1000'']])
   \<and> entry_of (handle_entry ex_search_zero ''uid=alice,dc=example''
        [''uid'' \<mapsto> [''alice''], ''uidNumber'' \<mapsto> [''1000'']]) ''uidNumber'' = Some [PInt 0]"
  by code_simp

text \<open>
  The same with the empty string: it is supplied for \<^verbatim>\<open>uid\<close>, and the entry is
  accepted although the empty string is not among its values.
\<close>

lemma supplied_empty_string_example:
  "map_of (parameters (ex_search\<lparr>parameters := [(''uid'', PStr '''')]\<rparr>)) ''uid'' = Some (PStr '''')
   \<and> ''uid'' \<in> set (case_sensitive (ex_search\<lparr>parameters := [(''uid'', PStr '''')]\<rparr>))
   \<and> accepted (handle_entry (ex_search\<lparr>parameters := [(''uid'', PStr '''')]\<rparr>)
        ''uid=alice,dc=example'' [''uid'' \<mapsto> [''alice'']])
   \<and> entry_of (handle_entry (ex_search\<lparr>parameters := [(''uid'', PStr '''')]\<rparr>)
        ''uid=alice,dc=example'' [''uid'' \<mapsto> [''alice'']]) ''uid'' = Some [PStr ''alice'']
   \<and> PStr '''' \<notin> set [PStr ''alice'']"
  by code_simp

section \<open>Reconciliation: false parameter values\<close>

lemma canonical_first_loop_cong:
  "str2dn s' = str2dn s \<Longrightarrow> attmap s' = attmap s \<Longrightarrow>
   canonical_first_loop s' dn fs a = canonical_first_loop s dn fs a"
  by (induction fs arbitrary: a) (auto split: sum.splits option.splits)

text \<open>
  Claim C9. When the request supplies a false value (the number 0, the empty
  string) for a field, \<^verbatim>\<open>handle_entry\<close> skips the confirmation of that field
  entirely: its result is the one it gives when the field is struck from
  \<^verbatim>\<open>case_sensitive\<close> and from \<^verbatim>\<open>case_insensitive\<close>. So an entry is accepted
  even when its values for the field hold no match for the parameter.
\<close>

theorem falsy_parameter_skips_confirmation:
  assumes "map_of (parameters s) f = Some v" and "\<not> truthy v"
  shows "handle_entry s dn raw =
     handle_entry (s\<lparr>case_sensitive := filter (\<lambda>g. g \<noteq> f) (case_sensitive s),
                      case_insensitive := filter (\<lambda>g. g \<noteq> f) (case_insensitive s)\<rparr>) dn raw"
proof -
  let ?s' = "s\<lparr>case_sensitive := filter (\<lambda>g. g \<noteq> f) (case_sensitive s),
                 case_insensitive := filter (\<lambda>g. g \<noteq> f) (case_insensitive s)\<rparr>"
  have falsy: "case map_of (parameters s) f of None \<Rightarrow> True | Some v \<Rightarrow> \<not> truthy v"
    using assms by simp
  have can: "\<And>a. canonical_first_loop ?s' dn (canonical_first s) a =
      canonical_first_loop s dn (canonical_first s) a"
    by (rule canonical_first_loop_cong) simp_all
  have cs: "\<And>a. check_loop confirms_cs (parameters s) a (filter (\<lambda>g. g \<noteq> f) (case_sensitive s))
      = check_loop confirms_cs (parameters s) a (case_sensitive s)"
    using falsy by (rule check_loop_filter)
  have ci: "\<And>a. check_loop confirms_ci (parameters s) a (filter (\<lambda>g. g \<noteq> f) (case_insensitive s))
      = check_loop confirms_ci (parameters s) a (case_insensitive s)"
    using falsy by (rule check_loop_filter)
  show ?thesis
    unfolding handle_entry_def case_sensitive_loop_eq case_insensitive_loop_eq
    by (simp add: can cs ci cong: sum.case_cong if_cong)
qed

theorem falsy_parameter_skips_confirmation_witness:
  "map_of (parameters (ex_search\<lparr>parameters := [(''uidNumber'', PInt 0)],
        case_sensitive := [''uid'', ''uidNumber'']\<rparr>)) ''uidNumber'' = Some (PInt 0)
   \<and> \<not> truthy (PInt 0)
   \<and> handle_entry (ex_search\<lparr>parameters := [(''uidNumber'', PInt 0)],
        case_sensitive := [''uid'', ''uidNumber'']\<rparr>) ''uid=alice,dc=example''
        [''uid'' \<mapsto> [''alice''], ''uidNumber'' \<mapsto> [''1000'']]
      = handle_entry (ex_search\<lparr>parameters := [(''uidNumber'', PInt 0)],
        case_sensitive := [''uid''], case_insensitive := []\<rparr>) ''uid=alice,dc=example''
        [''uid'' \<mapsto> [''alice''], ''uidNumber'' \<mapsto> [''1000'']]
   \<and> accepted (handle_entry (ex_search\<lparr>parameters := [(''uidNumber'', PInt 0)],
        case_sensitive := [''uid'', ''uidNumber'']\<rparr>) ''uid=alice,dc=example''
        [''uid'' \<mapsto> [''alice''], ''uidNumber'' \<mapsto> [''1000'']])
   \<and> entry_of (handle_entry (ex_search\<lparr>parameters := [(''uidNumber'', PInt 0)],
        case_sensitive := [''uid'', ''uidNumber'']\<rparr>) ''uid=alice,dc=example''
        [''uid'' \<mapsto> [''alice''], ''uidNumber'' \<mapsto> [''1000'']]) ''uidNumber''
      = Some [PStr ''1000'']
   \<and> str (PInt 0) = ''0''"
proof -
  let ?s = "ex_search\<lparr>parameters := [(''uidNumber'', PInt 0)],
        case_sensitive := [''uid'', ''uidNumber'']\<rparr>"
  let ?dn = "''uid=alice,dc=example''"
  let ?raw = "[''uid'' \<mapsto> [''alice''], ''uidNumber'' \<mapsto> [''1000'']]"
  have p: "map_of (parameters ?s) ''uidNumber'' = Some (PInt 0)" by (simp add: ex_search_def)
  have t: "\<not> truthy (PInt 0)" by simp
  have eq: "?s\<lparr>case_sensitive := filter (\<lambda>g. g \<noteq> ''uidNumber'') (case_sensitive ?s),
                case_insensitive := filter (\<lambda>g. g \<noteq> ''uidNumber'') (case_insensitive ?s)\<rparr>
      = ex_search\<lparr>parameters := [(''uidNumber'', PInt 0)],
          case_sensitive := [''uid''], case_insensitive := []\<rparr>"
    by (simp add: ex_search_def)
  have acc: "accepted (handle_entry ?s ?dn ?raw)" by code_simp
  have e: "entry_of (handle_entry ?s ?dn ?raw) ''uidNumber'' = Some [PStr ''1000'']"
    by code_simp
  have z: "str (PInt 0) = ''0''" by code_simp
  from falsy_parameter_skips_confirmation [OF p t, of ?dn ?raw] eq
  have "handle_entry ?s ?dn ?raw =
      handle_entry (ex_search\<lparr>parameters := [(''uidNumber'', PInt 0)],
        case_sensitive := [''uid''], case_insensitive := []\<rparr>) ?dn ?raw"
    by simp
  with p t acc e z show ?thesis by (intro conjI)
qed

section \<open>Reconciliation: a confirmed field that the entry lacks\<close>

text \<open>
  Claim C10, as amended. Let an entry reach the confirmation step (the required
  fields are there), and let a field have a true parameter value and be absent from
  the translated entry. If the field is in \<^verbatim>\<open>case_sensitive\<close> and every field
  before it in that list passes, or if every field of \<^verbatim>\<open>case_sensitive\<close> passes
  and the field is in \<^verbatim>\<open>case_insensitive\<close> with every field before it passing,
  then \<^verbatim>\<open>handle_entry\<close> raises \<^verbatim>\<open>KeyError\<close> instead of returning a rejection.
  (A field checked earlier that is present without a match makes it return the
  rejection first.) It returns an accepted entry only when no field of the two lists
  is in that state.
\<close>

theorem absent_confirmed_field_raises:
  assumes "canonical s dn raw = Inr a" and "required_loop a (required s)"
    and "lookup_fails (parameters s) (translate s raw) f"
  shows "(case_sensitive s = pre @ f # post \<longrightarrow>
            (\<forall>g\<in>set pre. passes confirms_cs (parameters s) a g) \<longrightarrow>
            handle_entry s dn raw = Inl KeyError)
       \<and> ((\<forall>g\<in>set (case_sensitive s). passes confirms_cs (parameters s) a g) \<longrightarrow>
            case_insensitive s = pre @ f # post \<longrightarrow>
            (\<forall>g\<in>set pre. passes confirms_ci (parameters s) a g) \<longrightarrow>
            handle_entry s dn raw = Inl KeyError)
       \<and> (accepted (handle_entry s dn raw) \<longrightarrow>
            f \<notin> set (case_sensitive s) \<and> f \<notin> set (case_insensitive s))"
proof -
  from assms(1) have "a f = None \<longleftrightarrow> translate s raw f = None"
    unfolding canonical_def by (rule canonical_first_loop_None)
  with assms(3) have lf: "lookup_fails (parameters s) a f"
    by (auto simp: lookup_fails_def split: option.splits)
  then have np: "\<And>c. \<not> passes c (parameters s) a f"
    by (auto simp: lookup_fails_def passes_def split: option.splits)
  have raise: "\<And>c pre post. \<forall>g\<in>set pre. passes c (parameters s) a g \<Longrightarrow>
      check_loop c (parameters s) a (pre @ f # post) = Inl KeyError"
    by (simp only: check_loop_prefix check_loop_lookup_fails [OF lf])
  show ?thesis
  proof (intro conjI impI)
    assume "case_sensitive s = pre @ f # post"
      and "\<forall>g\<in>set pre. passes confirms_cs (parameters s) a g"
    then have "check_loop confirms_cs (parameters s) a (case_sensitive s) = Inl KeyError"
      using raise by simp
    with assms(1,2) show "handle_entry s dn raw = Inl KeyError"
      unfolding handle_entry_Inl by blast
  next
    assume "\<forall>g\<in>set (case_sensitive s). passes confirms_cs (parameters s) a g"
      and "case_insensitive s = pre @ f # post"
      and "\<forall>g\<in>set pre. passes confirms_ci (parameters s) a g"
    then have "check_loop confirms_cs (parameters s) a (case_sensitive s) = Inr True"
      and "check_loop confirms_ci (parameters s) a (case_insensitive s) = Inl KeyError"
      using raise by (simp_all add: check_loop_True)
    with assms(1,2) show "handle_entry s dn raw = Inl KeyError"
      unfolding handle_entry_Inl by blast
  next
    assume "accepted (handle_entry s dn raw)"
    then obtain d e where "handle_entry s dn raw = Inr (Some (d, e))"
      by (auto simp: accepted_def split: sum.splits option.splits)
    with assms(1) have "\<forall>g\<in>set (case_sensitive s). passes confirms_cs (parameters s) a g"
      and "\<forall>g\<in>set (case_insensitive s). passes confirms_ci (parameters s) a g"
      unfolding handle_entry_Some check_loop_True by auto
    with np show "f \<notin> set (case_sensitive s)" by blast
  next
    assume "accepted (handle_entry s dn raw)"
    then obtain d e where "handle_entry s dn raw = Inr (Some (d, e))"
      by (auto simp: accepted_def split: sum.splits option.splits)
    with assms(1) have "\<forall>g\<in>set (case_insensitive s). passes confirms_ci (parameters s) a g"
      unfolding handle_entry_Some check_loop_True by auto
    with np show "f \<notin> set (case_insensitive s)" by blast
  qed
qed

theorem absent_confirmed_field_raises_witness:
  "canonical (ex_search\<lparr>parameters := [(''uid'', PStr ''alice''), (''cn'', PStr ''alice smith'')],
        case_insensitive := [''cn'']\<rparr>) ''uid=alice,dc=example'' [''uid'' \<mapsto> [''alice'']]
     = Inr [''uid'' \<mapsto> [''alice'']]
   \<and> required_loop [''uid'' \<mapsto> [''alice'']]
        (required (ex_search\<lparr>parameters := [(''uid'', PStr ''alice''), (''cn'', PStr ''alice smith'')],
          case_insensitive := [''cn'']\<rparr>))
   \<and> lookup_fails (parameters (ex_search\<lparr>parameters := [(''uid'', PStr ''alice''), (''cn'', PStr ''alice smith'')],
          case_insensitive := [''cn'']\<rparr>))
        (translate (ex_search\<lparr>parameters := [(''uid'', PStr ''alice''), (''cn'', PStr ''alice smith'')],
          case_insensitive := [''cn'']\<rparr>) [''uid'' \<mapsto> [''alice'']]) ''cn''
   \<and> case_sensitive (ex_search\<lparr>parameters := [(''uid'', PStr ''alice''), (''cn'', PStr ''alice smith'')],
          case_insensitive := [''cn'']\<rparr>) = [''uid'']
   \<and> passes confirms_cs (parameters (ex_search\<lparr>parameters := [(''uid'', PStr ''alice''), (''cn'', PStr ''alice smith'')],
          case_insensitive := [''cn'']\<rparr>)) [''uid'' \<mapsto> [''alice'']] ''uid''
   \<and> case_insensitive (ex_search\<lparr>parameters := [(''uid'', PStr ''alice''), (''cn'', PStr ''alice smith'')],
          case_insensitive := [''cn'']\<rparr>) = [] @ ''cn'' # []
   \<and> handle_entry (ex_search\<lparr>parameters := [(''uid'', PStr ''alice''), (''cn'', PStr ''alice smith'')],
        case_insensitive := [''cn'']\<rparr>) ''uid=alice,dc=example'' [''uid'' \<mapsto> [''alice'']]
     = Inl KeyError"
proof -
  let ?s = "ex_search\<lparr>parameters := [(''uid'', PStr ''alice''), (''cn'', PStr ''alice smith'')],
        case_insensitive := [''cn'']\<rparr>"
  let ?dn = "''uid=alice,dc=example''"
  let ?raw = "[''uid'' \<mapsto> [''alice'']]"
  have c: "canonical ?s ?dn ?raw = Inr ?raw"
    by (simp add: canonical_def ex_search_def ex_str2dn_def get_rdn_value_def dict_def)
  have r: "required_loop ?raw (required ?s)" by (simp add: ex_search_def)
  have l: "lookup_fails (parameters ?s) (translate ?s ?raw) ''cn''"
    by (simp add: lookup_fails_def ex_search_def)
  have p: "\<forall>g\<in>set (case_sensitive ?s). passes confirms_cs (parameters ?s) ?raw g"
    by (simp add: passes_def confirms_cs_def ex_search_def)
  have i: "case_insensitive ?s = [] @ ''cn'' # []" by (simp add: ex_search_def)
  have e: "\<forall>g\<in>set []. passes confirms_ci (parameters ?s) ?raw g" by simp
  from absent_confirmed_field_raises [OF c r l, of "[]" "[]"] p i e
  have "handle_entry ?s ?dn ?raw = Inl KeyError" by blast
  moreover have "case_sensitive ?s = [''uid'']" by (simp add: ex_search_def)
  moreover have "passes confirms_cs (parameters ?s) ?raw ''uid''"
    by (simp add: passes_def confirms_cs_def ex_search_def)
  ultimately show ?thesis using c r l i by (intro conjI)
qed

text \<open>
  Claim C10 as stated fails when a field checked earlier rejects the entry: the
  request has true values for \<^verbatim>\<open>uid\<close> and \<^verbatim>\<open>cn\<close>, both in
  \<^verbatim>\<open>case_sensitive\<close>, the entry has no \<^verbatim>\<open>cn\<close>, and its \<^verbatim>\<open>uid\<close> does not
  match. The entry reaches the confirmation step, and \<^verbatim>\<open>handle_entry\<close> returns the
  rejection, not a lookup error.
\<close>

theorem absent_confirmed_field_counterexample:
  "canonical (ex_search\<lparr>parameters := [(''uid'', PStr ''bob''), (''cn'', PStr ''Alice'')],
        canonical_first := [], case_sensitive := [''uid'', ''cn'']\<rparr>)
        ''uid=alice,dc=example'' [''uid'' \<mapsto> [''alice'']] = Inr [''uid'' \<mapsto> [''alice'']]
   \<and> required_loop [''uid'' \<mapsto> [''alice'']]
     (required (ex_search\<lparr>parameters := [(''uid'', PStr ''bob''), (''cn'', PStr ''Alice'')],
        canonical_first := [], case_sensitive := [''uid'', ''cn'']\<rparr>))
   \<and> ''cn'' \<in> set (case_sensitive (ex_search\<lparr>parameters := [(''uid'', PStr ''bob''), (''cn'', PStr ''Alice'')],
        canonical_first := [], case_sensitive := [''uid'', ''cn'']\<rparr>))
   \<and> lookup_fails (parameters (ex_search\<lparr>parameters := [(''uid'', PStr ''bob''), (''cn'', PStr ''Alice'')],
        canonical_first := [], case_sensitive := [''uid'', ''cn'']\<rparr>)) [''uid'' \<mapsto> [''alice'']] ''cn''
   \<and> handle_entry (ex_search\<lparr>parameters := [(''uid'', PStr ''bob''), (''cn'', PStr ''Alice'')],
        canonical_first := [], case_sensitive := [''uid'', ''cn'']\<rparr>)
        ''uid=alice,dc=example'' [''uid'' \<mapsto> [''alice'']] = Inr None"
  by (simp add: handle_entry_def canonical_def ex_search_def lookup_fails_def)

section \<open>The value of an attribute in the first relative name\<close>

lemma dict_Some_iff: "(\<exists>v. dict ps k = Some v) \<longleftrightarrow> k \<in> fst ` set ps"
  unfolding dict_def by (metis map_of_eq_None_iff not_None_eq set_rev)

lemma dict_in_set: "dict ps k = Some v \<Longrightarrow> (k, v) \<in> set ps"
  unfolding dict_def by (metis map_of_SomeD set_rev)

text \<open>
  When the first relative name has a pair for the attribute, \<^verbatim>\<open>get_rdn_value\<close>
  returns a value paired with it there (the last such pair's).
\<close>

lemma get_rdn_value_present:
  assumes "parse dn = Inr (rdn # rest)" and "(attribute, v, z) \<in> set rdn"
  shows "\<exists>v' z'. get_rdn_value parse dn attribute = Inr v' \<and> (attribute, v', z') \<in> set rdn"
proof -
  let ?ps = "map (\<lambda>(x, y, z). (x, y)) rdn"
  from assms(2) have "attribute \<in> fst ` set ?ps" by force
  then obtain v' where v': "dict ?ps attribute = Some v'" using dict_Some_iff by metis
  then have "(attribute, v') \<in> set ?ps" by (rule dict_in_set)
  then obtain z' where "(attribute, v', z') \<in> set rdn" by auto
  moreover have "get_rdn_value parse dn attribute = Inr v'"
    using assms(1) v' by (simp add: get_rdn_value_def)
  ultimately show ?thesis by blast
qed

text \<open>
  When the first relative name has no pair for the attribute, the subscript raises
  \<^verbatim>\<open>KeyError\<close>; a DN without relative names raises \<^verbatim>\<open>IndexError\<close>.
\<close>

lemma get_rdn_value_absent:
  assumes "parse dn = Inr (rdn # rest)" and "attribute \<notin> fst ` set rdn"
  shows "get_rdn_value parse dn attribute = Inl KeyError"
proof -
  let ?ps = "map (\<lambda>(x, y, z). (x, y)) rdn"
  have "fst ` set ?ps = fst ` set rdn" by force
  with assms(2) have "dict ?ps attribute = None" using dict_Some_iff by (metis not_None_eq)
  with assms(1) show ?thesis by (simp add: get_rdn_value_def)
qed

lemma get_rdn_value_no_rdn: "parse dn = Inr [] \<Longrightarrow> get_rdn_value parse dn attribute = Inl IndexError"
  by (simp add: get_rdn_value_def)

text \<open>
  Claim C8 says that \<^verbatim>\<open>get_rdn_value\<close> signals absence rather than failing when
  the attribute is not in the first relative name. The code fails: for the DN
  \<^verbatim>\<open>cn=Alice Smith,dc=example\<close> and the attribute \<^verbatim>\<open>uid\<close> it raises
  \<^verbatim>\<open>KeyError\<close>, and so does \<^verbatim>\<open>handle_entry\<close> on an entry with that DN when
  \<^verbatim>\<open>uid\<close> is in \<^verbatim>\<open>canonical_first\<close>, although its caller tests the result with
  \<^verbatim>\<open>if primary_value:\<close> as if absence came back as a false value.
\<close>

theorem get_rdn_value_absent_raises:
  "get_rdn_value ex_str2dn ''cn=Alice Smith,dc=example'' ''uid'' = Inl KeyError
   \<and> handle_entry ex_search ''cn=Alice Smith,dc=example''
        [''uid'' \<mapsto> [''alice''], ''cn'' \<mapsto> [''Alice Smith'']] = Inl KeyError"
  by (simp add: handle_entry_def ex_search_def ex_str2dn_def get_rdn_value_def dict_def)

section \<open>The search filter\<close>

lemma join_parenthesised:
  "xs \<noteq> [] \<Longrightarrow> ''('' @ join '')('' xs @ '')'' = concat (map (\<lambda>x. ''('' @ x @ '')'') xs)"
proof (induction xs)
  case Nil
  then show ?case by simp
next
  case (Cons x xs)
  show ?case
  proof (cases xs)
    case Nil
    then show ?thesis by simp
  next
    case (Cons y ys)
    with Cons.IH have "''('' @ join '')('' (y # ys) @ '')''
        = concat (map (\<lambda>x. ''('' @ x @ '')'') (y # ys))"
      by simp
    with Cons show ?thesis by simp
  qed
qed

lemma replace_char_concat:
  "replace_char c r (concat (map f s)) = concat (map (\<lambda>x. replace_char c r (f x)) s)"
  by (induction s) (simp_all add: replace_char_def)

lemma replace_char_single: "replace_char c r [x] = (if x = c then r else [x])"
  by (simp add: replace_char_def)

lemma escape_filter_chars_eq: "escape_filter_chars s = concat (map escape_char s)"
proof -
  have one: "\<And>c r. replace_char c r s = concat (map (\<lambda>x. if x = c then r else [x]) s)"
    by (simp add: replace_char_def)
  have "escape_filter_chars s =
      concat (map (\<lambda>x.
        replace_char (CHR 0x00) [CHR 0x5C, CHR ''0'', CHR ''0'']
          (replace_char (CHR '')'') [CHR 0x5C, CHR ''2'', CHR ''9'']
            (replace_char (CHR ''('') [CHR 0x5C, CHR ''2'', CHR ''8'']
              (replace_char (CHR ''*'') [CHR 0x5C, CHR ''2'', CHR ''a'']
                (if x = CHR 0x5C then [CHR 0x5C, CHR ''5'', CHR ''c''] else [x]))))) s)"
    unfolding escape_filter_chars_def Let_def one [of "CHR 0x5C"]
    by (simp only: replace_char_concat)
  also have "\<dots> = concat (map escape_char s)"
    by (rule arg_cong [where f = concat], rule map_cong [OF refl])
      (simp add: escape_char_def replace_char_def)
  finally show ?thesis .
qed

lemma escape_char_clean:
  "CHR ''*'' \<notin> set (escape_char c)" "CHR ''('' \<notin> set (escape_char c)"
  "CHR '')'' \<notin> set (escape_char c)" "CHR 0x00 \<notin> set (escape_char c)"
  by (simp_all add: escape_char_def)

text \<open>The escaped value holds none of the characters that have a meaning in a filter.\<close>

lemma escape_filter_chars_clean:
  "set (escape_filter_chars s) \<inter> {CHR ''*'', CHR ''('', CHR '')'', CHR 0x00} = {}"
  unfolding escape_filter_chars_eq using escape_char_clean by auto

text \<open>
  Claim C4. With parameters, \<^verbatim>\<open>mk_filter\<close> returns \<^verbatim>\<open>(&\<close>, the base filter, one
  term \<^verbatim>\<open>(attr=value)\<close> for each parameter in the order of the mapping, and
  \<^verbatim>\<open>)\<close>: the attribute name comes from the attribute mapper and each character of
  the value's string form is escaped (\<^verbatim>\<open>*\<close>, \<^verbatim>\<open>(\<close>, \<^verbatim>\<open>)\<close>, the backslash and
  NUL become a backslash and two hexadecimal digits, any other character is kept).
  Without parameters it returns the base filter.
\<close>

theorem mk_filter_shape:
  "(parameters s \<noteq> [] \<longrightarrow>
      mk_filter s =
        ''(&'' @ filter_str s @
        concat (map (\<lambda>(attribute, value).
                       ''('' @ attmap s attribute @ ''='' @ concat (map escape_char (str value))
                       @ '')'')
                    (parameters s))
        @ '')'')
   \<and> (parameters s = [] \<longrightarrow> mk_filter s = filter_str s)"
proof (intro conjI impI)
  assume ne: "parameters s \<noteq> []"
  let ?terms = "map (\<lambda>(attribute, value).
                    attmap s attribute @ ''='' @ escape_filter_chars (str value))
                 (parameters s)"
  from ne have "?terms \<noteq> []" by simp
  then have "''('' @ join '')('' ?terms @ '')'' = concat (map (\<lambda>x. ''('' @ x @ '')'') ?terms)"
    by (rule join_parenthesised)
  also have "\<dots> = concat (map (\<lambda>(attribute, value).
                       ''('' @ attmap s attribute @ ''='' @ concat (map escape_char (str value))
                       @ '')'')
                    (parameters s))"
    by (simp add: escape_filter_chars_eq comp_def case_prod_unfold)
  finally have "''('' @ join '')('' ?terms @ '')'' = concat (map (\<lambda>(attribute, value).
                       ''('' @ attmap s attribute @ ''='' @ concat (map escape_char (str value))
                       @ '')'')
                    (parameters s))" .
  then have "''('' @ join '')('' ?terms @ ''))'' = concat (map (\<lambda>(attribute, value).
                       ''('' @ attmap s attribute @ ''='' @ concat (map escape_char (str value))
                       @ '')'')
                    (parameters s)) @ '')''"
    by simp
  with ne show "mk_filter s =
        ''(&'' @ filter_str s @
        concat (map (\<lambda>(attribute, value).
                       ''('' @ attmap s attribute @ ''='' @ concat (map escape_char (str value))
                       @ '')'')
                    (parameters s))
        @ '')''"
    by (simp add: mk_filter_def)
next
  assume "parameters s = []"
  then show "mk_filter s = filter_str s" by (simp add: mk_filter_def)
qed

theorem mk_filter_shape_witness:
  "parameters (ex_search\<lparr>parameters := [(''uid'', PStr ''a*(b)''), (''uidNumber'', PInt 1000)]\<rparr>) \<noteq> []
   \<and> mk_filter (ex_search\<lparr>parameters := [(''uid'', PStr ''a*(b)''), (''uidNumber'', PInt 1000)]\<rparr>)
      = ''(&(objectClass=posixAccount)(uid=a'' @ [CHR 0x5C] @ ''2a'' @ [CHR 0x5C] @ ''28b''
          @ [CHR 0x5C] @ ''29)(uidNumber=1000))''
   \<and> parameters ex_search = []
   \<and> mk_filter ex_search = ''(objectClass=posixAccount)''"
proof -
  let ?s = "ex_search\<lparr>parameters := [(''uid'', PStr ''a*(b)''), (''uidNumber'', PInt 1000)]\<rparr>"
  have ne: "parameters ?s \<noteq> []" by (simp add: ex_search_def)
  have em: "parameters ex_search = []" by (simp add: ex_search_def)
  have v: "''(&'' @ filter_str ?s @
        concat (map (\<lambda>(attribute, value).
                       ''('' @ attmap ?s attribute @ ''='' @ concat (map escape_char (str value))
                       @ '')'')
                    (parameters ?s))
        @ '')''
      = ''(&(objectClass=posixAccount)(uid=a'' @ [CHR 0x5C] @ ''2a'' @ [CHR 0x5C] @ ''28b''
          @ [CHR 0x5C] @ ''29)(uidNumber=1000))''"
    by code_simp
  have f: "filter_str ex_search = ''(objectClass=posixAccount)''" by (simp add: ex_search_def)
  from mk_filter_shape [of ?s] ne v
  have a: "mk_filter ?s = ''(&(objectClass=posixAccount)(uid=a'' @ [CHR 0x5C] @ ''2a''
      @ [CHR 0x5C] @ ''28b'' @ [CHR 0x5C] @ ''29)(uidNumber=1000))''"
    by simp
  from mk_filter_shape [of ex_search] em f
  have b: "mk_filter ex_search = ''(objectClass=posixAccount)''" by simp
  from ne a em b show ?thesis by (intro conjI)
qed

section \<open>The loop over the search bases\<close>





lemma search_bases_step:
  "search_bases s flt (x # xs) =
     (case base_error s flt x of
        Some e \<Rightarrow> (base_yield s flt x, Some e)
      | None \<Rightarrow>
          (case search_bases s flt xs of (zs, err) \<Rightarrow> (base_yield s flt x @ zs, err)))"
  by (auto simp: base_error_def base_yield_def
      split: sum.splits prod.splits option.splits)


text \<open>
  The loop over a list of bases in two parts: unless an exception left it in the first
  part, the second part is searched and what it yields comes after.
\<close>

lemma search_bases_append:
  "search_bases s flt (xs @ ys) =
     (case search_bases s flt xs of
        (as, Some e) \<Rightarrow> (as, Some e)
      | (as, None) \<Rightarrow> (case search_bases s flt ys of (bs, err) \<Rightarrow> (as @ bs, err)))"
proof (induction xs)
  case Nil
  then show ?case by (simp split: prod.splits)
next
  case (Cons x xs)
  show ?case
    unfolding append_Cons search_bases_step [of s flt x] Cons.IH
    by (simp split: option.splits prod.splits)
qed




section \<open>Properties of the request handler\<close>

text \<open>
  Claim C6. When the parameters are read and the search ends without an exception
  (also when it yields nothing), \<^verbatim>\<open>Request.__call__\<close> appends to the stream the
  version, the action code, one record for each entry in the order in which the
  search yields them, and the end marker once, with nothing after it.
\<close>

theorem request_output:
  assumes "read_parameters r = Inr p"
    and "Search_call (Search_init (search_cls r) (req_conn r)
           (case p of None \<Rightarrow> [] | Some d \<Rightarrow> d)) = (ys, None)"
  shows "Request_call r fp =
     (fp @ [Int32 (NSLCD_VERSION r), Int32 (action r)]
         @ map (\<lambda>(dn, attrs). Record (write' r dn attrs (case p of None \<Rightarrow> [] | Some d \<Rightarrow> d))) ys
         @ [Int32 (NSLCD_RESULT_END r)],
      None)"
  using assms by (simp add: Request_call_def handle_request_def)

theorem request_output_witness:
  "read_parameters ex_request = Inr (Some [(''uid'', PStr ''alice'')])
   \<and> snd (Search_call (Search_init (search_cls ex_request) (req_conn ex_request)
        [(''uid'', PStr ''alice'')])) = None
   \<and> Request_call ex_request []
      = ([Int32 1, Int32 0x00080001, Record ''uid=alice,dc=example'', Int32 3], None)
   \<and> read_parameters (ex_request\<lparr>search_cls := ex_search\<lparr>bases := [''ou=empty,dc=example'']\<rparr>\<rparr>)
      = Inr (Some [(''uid'', PStr ''alice'')])
   \<and> Search_call (Search_init
        (search_cls (ex_request\<lparr>search_cls := ex_search\<lparr>bases := [''ou=empty,dc=example'']\<rparr>\<rparr>))
        (req_conn (ex_request\<lparr>search_cls := ex_search\<lparr>bases := [''ou=empty,dc=example'']\<rparr>\<rparr>))
        [(''uid'', PStr ''alice'')]) = ([], None)
   \<and> Request_call (ex_request\<lparr>search_cls := ex_search\<lparr>bases := [''ou=empty,dc=example'']\<rparr>\<rparr>) []
      = ([Int32 1, Int32 0x00080001, Int32 3], None)"
proof -
  let ?ps = "[(''uid'', PStr ''alice'')]"
  let ?S = "Search_call (Search_init (search_cls ex_request) (req_conn ex_request) ?ps)"
  let ?r0 = "ex_request\<lparr>search_cls := ex_search\<lparr>bases := [''ou=empty,dc=example'']\<rparr>\<rparr>"
  have rp: "read_parameters ex_request = Inr (Some ?ps)" by (simp add: ex_request_def)
  have n: "snd ?S = None" by code_simp
  then have h: "Search_call (Search_init (search_cls ex_request) (req_conn ex_request)
      (case Some ?ps of None \<Rightarrow> [] | Some d \<Rightarrow> d)) = (fst ?S, None)"
    by (simp add: prod_eq_iff)
  have d: "map fst (fst ?S) = [''uid=alice,dc=example'']" by code_simp
  have w: "map (\<lambda>(dn, attrs). Record (write' ex_request dn attrs
        (case Some ?ps of None \<Rightarrow> [] | Some d \<Rightarrow> d))) (fst ?S)
      = map Record (map fst (fst ?S))"
    by (simp add: ex_request_def case_prod_unfold)
  have c: "NSLCD_VERSION ex_request = 1" "action ex_request = 0x00080001"
    "NSLCD_RESULT_END ex_request = 3"
    by (simp_all add: ex_request_def)
  from request_output [OF rp h, of "[]"]
  have out: "Request_call ex_request []
      = ([Int32 1, Int32 0x00080001, Record ''uid=alice,dc=example'', Int32 3], None)"
    unfolding w d c by simp
  have rp0: "read_parameters ?r0 = Inr (Some ?ps)" by (simp add: ex_request_def)
  have s0: "Search_call (Search_init (search_cls ?r0) (req_conn ?r0) ?ps) = ([], None)"
    by (simp add: Search_call_def Search_init_def ex_request_def ex_search_def ex_conn_def)
  then have h0: "Search_call (Search_init (search_cls ?r0) (req_conn ?r0)
      (case Some ?ps of None \<Rightarrow> [] | Some d \<Rightarrow> d)) = ([], None)"
    by simp
  have c0: "NSLCD_VERSION ?r0 = 1" "action ?r0 = 0x00080001" "NSLCD_RESULT_END ?r0 = 3"
    by (simp_all add: ex_request_def)
  from request_output [OF rp0 h0, of "[]"]
  have out0: "Request_call ?r0 [] = ([Int32 1, Int32 0x00080001, Int32 3], None)"
    unfolding c0 by simp
  from rp n out rp0 s0 out0 show ?thesis by (intro conjI)
qed

text \<open>
  An exception that leaves the search leaves the request as well: the records
  written before it stay in the stream and no end marker follows.
\<close>

lemma request_error:
  assumes "read_parameters r = Inr p"
    and "Search_call (Search_init (search_cls r) (req_conn r)
           (case p of None \<Rightarrow> [] | Some d \<Rightarrow> d)) = (ys, Some e)"
  shows "Request_call r fp =
     (fp @ [Int32 (NSLCD_VERSION r), Int32 (action r)]
         @ map (\<lambda>(dn, attrs). Record (write' r dn attrs (case p of None \<Rightarrow> [] | Some d \<Rightarrow> d))) ys,
      Some e)"
  using assms by (simp add: Request_call_def handle_request_def)

section \<open>What the search yields\<close>

text \<open>
  Everything that the search yields is an entry that \<^verbatim>\<open>handle_entry\<close> accepted:
  what holds of the accepted entries holds of the output of the search.
\<close>

lemma handle_entry_dn: "handle_entry s x raw = Inr (Some (d, e)) \<Longrightarrow> d = x"
  unfolding handle_entry_Some by blast

lemma handle_entries_yields:
  "handle_entries s es = (ys, err) \<Longrightarrow> (d, e) \<in> set ys \<Longrightarrow>
   \<exists>raw. (Some d, raw) \<in> set es \<and> handle_entry s d raw = Inr (Some (d, e))"
proof (induction es arbitrary: ys err)
  case Nil
  then show ?case by simp
next
  case (Cons p es)
  obtain dn attrs where p: "p = (dn, attrs)" by (cases p)
  have rest: "\<And>zs err'. handle_entries s es = (zs, err') \<Longrightarrow> (d, e) \<in> set zs \<Longrightarrow> ?case"
    using Cons.IH by fastforce
  show ?case
  proof (cases dn)
    case None
    with Cons.prems p rest show ?thesis by simp
  next
    case (Some x)
    show ?thesis
    proof (cases "x = []")
      case True
      with Cons.prems p Some rest show ?thesis by simp
    next
      case False
      show ?thesis
      proof (cases "handle_entry s x attrs")
        case (Inl e')
        with Cons.prems p Some False show ?thesis by simp
      next
        case (Inr r)
        show ?thesis
        proof (cases r)
          case None
          with Cons.prems p \<open>dn = Some x\<close> False Inr rest show ?thesis by simp
        next
          case r: (Some q)
          obtain d' e' where q: "q = (d', e')" by (cases q)
          with r Inr have acc: "handle_entry s x attrs = Inr (Some (d', e'))" by simp
          then have d': "d' = x" by (rule handle_entry_dn)
          obtain zs err' where zs: "handle_entries s es = (zs, err')"
            by (cases "handle_entries s es")
          with Cons.prems(1) p \<open>dn = Some x\<close> False acc have "ys = (d', e') # zs" by simp
          with Cons.prems(2) have "(d, e) = (d', e') \<or> (d, e) \<in> set zs" by auto
          then show ?thesis
          proof
            assume "(d, e) = (d', e')"
            with acc d' p \<open>dn = Some x\<close> show ?thesis by auto
          next
            assume "(d, e) \<in> set zs"
            with zs rest show ?thesis by blast
          qed
        qed
      qed
    qed
  qed
qed

lemma search_bases_yields:
  "search_bases s flt bs = (ys, err) \<Longrightarrow> (d, e) \<in> set ys \<Longrightarrow>
   \<exists>raw. handle_entry s d raw = Inr (Some (d, e))"
proof (induction bs arbitrary: ys err)
  case Nil
  then show ?case by simp
next
  case (Cons b bs)
  obtain zs err' where zs: "search_bases s flt bs = (zs, err')"
    by (cases "search_bases s flt bs")
  have rest: "(d, e) \<in> set zs \<Longrightarrow> ?case" using Cons.IH zs by blast
  show ?case
  proof (cases "conn s b (scope s) flt (attributes s)")
    case (Inl e')
    with Cons.prems zs rest show ?thesis by (auto split: if_splits)
  next
    case (Inr entries)
    obtain xs err'' where xs: "handle_entries s entries = (xs, err'')"
      by (cases "handle_entries s entries")
    have here: "(d, e) \<in> set xs \<Longrightarrow> ?thesis"
      using handle_entries_yields [OF xs] by blast
    from Cons.prems(1) Inr xs zs have "set ys \<subseteq> set xs \<union> set zs"
      by (auto split: option.splits if_splits)
    with Cons.prems(2) here rest show ?thesis by blast
  qed
qed

lemma Search_call_yields:
  "(d, e) \<in> set (fst (Search_call s)) \<Longrightarrow> \<exists>raw. handle_entry s d raw = Inr (Some (d, e))"
  unfolding Search_call_def
  using search_bases_yields [of s "mk_filter s" "bases s"] by (metis prod.collapse)

end
